theory Spec2Isabelle
  imports Main "HOL-Library.Multiset"
begin

section \<open>The editor state of App.jsx\<close>

text \<open>
  The component keeps the buffer in the React state \<^verbatim>\<open>text\<close> and the two history
  stacks in the refs \<^verbatim>\<open>undoStack\<close> and \<^verbatim>\<open>redoStack\<close>. A JavaScript string is a
  sequence of code units, modelled by \<^typ>\<open>string\<close>; an array used as a stack is a list
  whose last element is the top: \<^verbatim>\<open>push\<close> appends, \<^verbatim>\<open>pop\<close> takes the last element
  and \<^verbatim>\<open>shift\<close> drops the first one. Every handler runs on the state of the render
  it was created in and the component is rendered again before the next event, so a
  handler is a function from the state before the event to the state after it.
\<close>

record editor =
  text_state :: string
  undoStack :: "string list"
  redoStack :: "string list"

text \<open>\<^verbatim>\<open>useState("")\<close>, \<^verbatim>\<open>useRef([])\<close>, \<^verbatim>\<open>useRef([])\<close>.\<close>

definition initial :: editor where
  "initial = \<lparr>text_state = [], undoStack = [], redoStack = []\<rparr>"

text \<open>The selection of the textarea: \<^verbatim>\<open>selectionStart\<close> and \<^verbatim>\<open>selectionEnd\<close>.\<close>

type_synonym selection = "nat \<times> nat"

subsection \<open>History\<close>

text \<open>
  \<^verbatim>\<open>undoStack.current.push(text);
  if (undoStack.current.length > 100) undoStack.current.shift();
  redoStack.current = [];\<close>
\<close>

definition saveHistory :: "editor \<Rightarrow> editor" where
  "saveHistory s =
     (let pushed = undoStack s @ [text_state s]
      in s\<lparr>undoStack := (if length pushed > 100 then tl pushed else pushed),
            redoStack := []\<rparr>)"

text \<open>The \<^verbatim>\<open>onChange\<close> handler of the textarea: \<^verbatim>\<open>setText(e.target.value)\<close>.\<close>

definition setText :: "string \<Rightarrow> editor \<Rightarrow> editor" where
  "setText b s = s\<lparr>text_state := b\<rparr>"

text \<open>
  \<^verbatim>\<open>if (!undoStack.current.length) return;
  redoStack.current.push(text);
  setText(undoStack.current.pop());\<close>
\<close>

definition handleUndo :: "editor \<Rightarrow> editor" where
  "handleUndo s =
     (if length (undoStack s) = 0 then s
      else \<lparr>text_state = last (undoStack s),
            undoStack = butlast (undoStack s),
            redoStack = redoStack s @ [text_state s]\<rparr>)"

text \<open>
  \<^verbatim>\<open>if (!redoStack.current.length) return;
  undoStack.current.push(text);
  setText(redoStack.current.pop());\<close>
\<close>

definition handleRedo :: "editor \<Rightarrow> editor" where
  "handleRedo s =
     (if length (redoStack s) = 0 then s
      else \<lparr>text_state = last (redoStack s),
            undoStack = undoStack s @ [text_state s],
            redoStack = butlast (redoStack s)\<rparr>)"

subsection \<open>The wrap transform\<close>

text \<open>
  \<^verbatim>\<open>String.prototype.slice(from, to)\<close> for non-negative arguments: both are clamped
  to the length and the result is empty when \<^verbatim>\<open>to\<close> is not beyond \<^verbatim>\<open>from\<close>.
  \<^verbatim>\<open>slice(from)\<close> runs to the end of the string.
\<close>

definition slice :: "string \<Rightarrow> nat \<Rightarrow> nat \<Rightarrow> string" where
  "slice s from to =
     (let f = min from (length s); t = min to (length s)
      in take (t - f) (drop f s))"

definition slice_from :: "string \<Rightarrow> nat \<Rightarrow> string" where
  "slice_from s from = slice s from (length s)"

text \<open>
  \<^verbatim>\<open>const wrapSelection = (before, after = before) => { saveHistory(); ... }\<close>.
  The optional argument is an \<^typ>\<open>string option\<close>; the result is the new state
  and the selection that the deferred callback assigns to the textarea.
\<close>

definition wrapSelection ::
  "string \<Rightarrow> string option \<Rightarrow> selection \<Rightarrow> editor \<Rightarrow> editor \<times> selection" where
  "wrapSelection before_str after_opt sel s =
     (let after_str = (case after_opt of None \<Rightarrow> before_str | Some a \<Rightarrow> a);
          s1 = saveHistory s;
          start = fst sel;
          en = snd sel;
          txt = text_state s;
          selected = slice txt start en;
          newText =
            slice txt 0 start @ before_str @ selected @ after_str @ slice_from txt en
      in (setText newText s1,
          (start + length before_str, start + length before_str + length selected)))"

subsection \<open>The line-prefix transform\<close>

text \<open>
  \<^verbatim>\<open>text.split("\n")\<close>: the pieces between the newlines; the empty string has one
  (empty) piece. \<^verbatim>\<open>lines.join("\n")\<close> puts the newlines back.
\<close>

fun split_lines :: "string \<Rightarrow> string list" where
  "split_lines [] = [[]]"
| "split_lines (c # cs) =
     (if c = CHR 0x0A then [] # split_lines cs
      else (case split_lines cs of
              [] \<Rightarrow> [[c]]
            | l # ls \<Rightarrow> (c # l) # ls))"

fun join_lines :: "string list \<Rightarrow> string" where
  "join_lines [] = []"
| "join_lines [l] = l"
| "join_lines (l # ls) = l @ CHR 0x0A # join_lines ls"

text \<open>
  The callback of \<^verbatim>\<open>lines.map\<close> with the counter \<^verbatim>\<open>charCount\<close> it updates:
  \<^verbatim>\<open>
  const lineStart = charCount;
  const lineEnd = charCount + line.length;
  if (start <= lineEnd && end >= lineStart) { line = prefix + line; }
  charCount += line.length + 1;
  return line;\<close>
  The counter is advanced by the length of \<^verbatim>\<open>line\<close> after the assignment.
\<close>

fun map_lines :: "string \<Rightarrow> nat \<Rightarrow> nat \<Rightarrow> nat \<Rightarrow> string list \<Rightarrow> string list" where
  "map_lines prefix start en charCount [] = []"
| "map_lines prefix start en charCount (line # rest) =
     (let lineStart = charCount;
          lineEnd = charCount + length line;
          line' = (if start \<le> lineEnd \<and> en \<ge> lineStart then prefix @ line else line)
      in line' # map_lines prefix start en (charCount + (length line' + 1)) rest)"

definition insertAtLineStart :: "string \<Rightarrow> selection \<Rightarrow> editor \<Rightarrow> editor" where
  "insertAtLineStart prefix sel s =
     (let s1 = saveHistory s;
          start = fst sel;
          en = snd sel;
          lines = split_lines (text_state s);
          newLines = map_lines prefix start en 0 lines
      in setText (join_lines newLines) s1)"

text \<open>
  The line-prefix transform as the specification words it, for comparison with
  \<^const>\<open>insertAtLineStart\<close>: a line is rewritten as \<open>prefix + line\<close> when its range
  \<open>[lineStart, lineEnd]\<close> in the buffer meets the selection
  (\<open>start \<le> lineEnd\<close> and \<open>en \<ge> lineStart\<close>), where the next line starts one
  character after the end of this line in the buffer.
\<close>

fun spec_prefix_lines ::
  "string \<Rightarrow> nat \<Rightarrow> nat \<Rightarrow> nat \<Rightarrow> string list \<Rightarrow> string list" where
  "spec_prefix_lines prefix start en lineStart [] = []"
| "spec_prefix_lines prefix start en lineStart (line # rest) =
     (let lineEnd = lineStart + length line
      in (if start \<le> lineEnd \<and> en \<ge> lineStart then prefix @ line else line)
           # spec_prefix_lines prefix start en (lineEnd + 1) rest)"

definition prefixLines_spec :: "string \<Rightarrow> selection \<Rightarrow> string \<Rightarrow> string" where
  "prefixLines_spec prefix sel buffer =
     join_lines (spec_prefix_lines prefix (fst sel) (snd sel) 0 (split_lines buffer))"

text \<open>
  What both transforms do to the history: \<^verbatim>\<open>saveHistory()\<close> on the buffer
  before the edit, then \<^verbatim>\<open>setText(newText)\<close>.
\<close>

definition edit :: "string \<Rightarrow> editor \<Rightarrow> editor" where
  "edit newText s = setText newText (saveHistory s)"

subsection \<open>Sequences of history operations\<close>

text \<open>
  The four things a handler does to the state: \<^verbatim>\<open>saveHistory()\<close>, \<^verbatim>\<open>setText(b)\<close>,
  \<^verbatim>\<open>handleUndo()\<close> and \<^verbatim>\<open>handleRedo()\<close>. A session is a list of them, run from
  left to right.
\<close>

datatype hist_op = CaptureBeforeEdit | SetText string | Undo | Redo

fun apply_op :: "hist_op \<Rightarrow> editor \<Rightarrow> editor" where
  "apply_op CaptureBeforeEdit s = saveHistory s"
| "apply_op (SetText b) s = setText b s"
| "apply_op Undo s = handleUndo s"
| "apply_op Redo s = handleRedo s"

definition run_ops :: "hist_op list \<Rightarrow> editor \<Rightarrow> editor" where
  "run_ops ops s = fold apply_op ops s"

text \<open>A list of edits, each replacing the buffer by the next string of the list.\<close>

definition edits :: "string list \<Rightarrow> editor \<Rightarrow> editor" where
  "edits bs s = fold edit bs s"

text \<open>Everything the state holds: both stacks and the current buffer.\<close>

definition snapshots :: "editor \<Rightarrow> string multiset" where
  "snapshots s = mset (undoStack s) + mset (redoStack s) + {#text_state s#}"

subsection \<open>JavaScript built-ins used by the key handler\<close>

text \<open>
  \<^verbatim>\<open>String.prototype.toLowerCase\<close> on code units below 256: the ASCII capitals and
  the Latin-1 capitals move up by 32.
\<close>

definition toLowerChar :: "char \<Rightarrow> char" where
  "toLowerChar c =
     (let n = (of_char c :: nat)
      in if (65 \<le> n \<and> n \<le> 90) \<or> (192 \<le> n \<and> n \<le> 222 \<and> n \<noteq> 215)
         then char_of (n + 32) else c)"

definition toLowerCase :: "string \<Rightarrow> string" where
  "toLowerCase str = map toLowerChar str"

text \<open>
  \<^verbatim>\<open>parseInt(string)\<close> with no radix, after ECMAScript: the argument is converted
  to a string (\<^verbatim>\<open>null\<close>, the answer of a dismissed prompt, becomes \<^verbatim>\<open>"null"\<close>),
  leading white space is skipped, a sign is read, a prefix \<^verbatim>\<open>0x\<close> or \<^verbatim>\<open>0X\<close>
  selects radix 16, and the longest run of digits is the value; no digit gives
  \<^verbatim>\<open>NaN\<close>, which is \<^const>\<open>None\<close> here. The value is kept as an exact integer.
\<close>

definition isWhiteSpace :: "char \<Rightarrow> bool" where
  "isWhiteSpace c = ((of_char c :: nat) \<in> {9, 10, 11, 12, 13, 32, 160})"

definition digitVal :: "char \<Rightarrow> nat" where
  "digitVal c =
     (let n = (of_char c :: nat)
      in if 48 \<le> n \<and> n \<le> 57 then n - 48
         else if 97 \<le> n \<and> n \<le> 122 then n - 87
         else if 65 \<le> n \<and> n \<le> 90 then n - 55
         else 36)"

definition parseInt :: "string option \<Rightarrow> int option" where
  "parseInt v =
     (let inputString = (case v of None \<Rightarrow> ''null'' | Some str \<Rightarrow> str);
          S = dropWhile isWhiteSpace inputString;
          sign = (if S \<noteq> [] \<and> hd S = CHR ''-'' then - 1 else (1::int));
          S1 = (if S \<noteq> [] \<and> (hd S = CHR ''+'' \<or> hd S = CHR ''-'') then tl S else S);
          hex = (2 \<le> length S1 \<and> (take 2 S1 = ''0x'' \<or> take 2 S1 = ''0X''));
          R = (if hex then 16 else (10::nat));
          S2 = (if hex then drop 2 S1 else S1);
          Z = takeWhile (\<lambda>c. digitVal c < R) S2
      in if Z = [] then None
         else Some (sign * int (foldl (\<lambda>n c. n * R + digitVal c) 0 Z)))"

text \<open>The decimal digits of a natural number, as a template literal prints them.\<close>

function show_nat :: "nat \<Rightarrow> string" where
  "show_nat n =
     (if n < 10 then [char_of (48 + n)]
      else show_nat (n div 10) @ [char_of (48 + n mod 10)])"
  by pat_completeness auto
termination
  by (relation "measure id") auto

subsection \<open>The table skeleton\<close>

text \<open>
  \<^verbatim>\<open>
  let table = "| ";
  for (let c = 0; c < cols; c++) table += `Header ${c + 1} | `;
  table += "\n| ";
  for (let c = 0; c < cols; c++) table += "---- | ";
  table += "\n";
  for (let r = 0; r < rows; r++) {
    table += "| ";
    for (let c = 0; c < cols; c++) table += "Data | ";
    table += "\n";
  }\<close>
  Each loop is a left fold over its counter.
\<close>

definition buildTable :: "int \<Rightarrow> int \<Rightarrow> string" where
  "buildTable cols rows =
     (let t0 = ''| '';
          t1 = foldl (\<lambda>table c. table @ ''Header '' @ show_nat (c + 1) @ '' | '') t0
                 [0..<nat cols];
          t2 = t1 @ ''\<newline>| '';
          t3 = foldl (\<lambda>table c. table @ ''---- | '') t2 [0..<nat cols];
          t4 = t3 @ ''\<newline>''
      in foldl (\<lambda>table r.
                  foldl (\<lambda>table c. table @ ''Data | '') (table @ ''| '') [0..<nat cols]
                    @ ''\<newline>'')
           t4 [0..<nat rows])"

subsection \<open>The key handler\<close>

record keyEvent =
  ctrlKey :: bool
  metaKey :: bool
  shiftKey :: bool
  key :: string

text \<open>
  The call that a case of the two \<^verbatim>\<open>switch\<close> statements makes. \<^verbatim>\<open>handleKeyDown\<close>
  first selects the call from the event and the answers to its prompts, then makes it.
\<close>

datatype command =
    WrapSelection string "string option"
  | InsertAtLineStart string
  | HandleUndo
  | HandleRedo

text \<open>
  \<^verbatim>\<open>p1\<close> and \<^verbatim>\<open>p2\<close> are the answers to the first and the second \<^verbatim>\<open>prompt\<close> of
  the event; \<^const>\<open>None\<close> is a dismissed prompt (\<^verbatim>\<open>null\<close>). \<^verbatim>\<open>if (url)\<close> holds for
  a string that is not empty, and \<^verbatim>\<open>cols > 0 && rows > 0\<close> fails when either
  number is \<^verbatim>\<open>NaN\<close>.
\<close>

definition plain_shortcut :: "string \<Rightarrow> string option \<Rightarrow> command option" where
  "plain_shortcut k p1 =
     (if k = ''b'' then Some (WrapSelection ''**'' None)
      else if k = ''i'' then Some (WrapSelection ''*'' None)
      else if k = ''1'' then Some (InsertAtLineStart ''# '')
      else if k = ''2'' then Some (InsertAtLineStart ''## '')
      else if k = ''3'' then Some (InsertAtLineStart ''### '')
      else if k = ''p'' then Some (InsertAtLineStart ''- '')
      else if k = ''q'' then Some (InsertAtLineStart ''> '')
      else if k = ''k'' then Some (WrapSelection ''`'' None)
      else if k = ''l'' then
        (case p1 of
           None \<Rightarrow> None
         | Some url \<Rightarrow>
             if url \<noteq> [] then Some (WrapSelection ''['' (Some ('']('' @ url @ '')'')))
             else None)
      else if k = ''z'' then Some HandleUndo
      else if k = ''y'' then Some HandleRedo
      else None)"

definition shift_shortcut ::
  "string \<Rightarrow> string option \<Rightarrow> string option \<Rightarrow> command option" where
  "shift_shortcut k p1 p2 =
     (if k = ''c'' then
        Some (WrapSelection ''\<newline>```bash\<newline>'' (Some ''\<newline>```\<newline>''))
      else if k = ''t'' then Some (InsertAtLineStart ''- [ ] '')
      else if k = ''s'' then Some (WrapSelection ''~~'' None)
      else if k = ''i'' then
        (case p1 of
           None \<Rightarrow> None
         | Some imgUrl \<Rightarrow>
             if imgUrl \<noteq> [] then Some (WrapSelection ''![]('' (Some '')'')) else None)
      else if k = ''h'' then Some (InsertAtLineStart ''---\<newline>'')
      else if k = ''g'' then
        (case parseInt p1 of
           None \<Rightarrow> None
         | Some cols \<Rightarrow>
             (case parseInt p2 of
                None \<Rightarrow> None
              | Some rows \<Rightarrow>
                  if cols > 0 \<and> rows > 0
                  then Some (WrapSelection (buildTable cols rows) (Some []))
                  else None))
      else None)"

definition shortcut :: "keyEvent \<Rightarrow> string option \<Rightarrow> string option \<Rightarrow> command option" where
  "shortcut e p1 p2 =
     (let ctrl = (ctrlKey e \<or> metaKey e);
          k = toLowerCase (key e)
      in if ctrl \<and> \<not> shiftKey e then plain_shortcut k p1
         else if ctrl \<and> shiftKey e then shift_shortcut k p1 p2
         else None)"

text \<open>
  Making the call on the selection of the textarea. The second component is the
  selection a wrap assigns afterwards; the other calls assign none.
\<close>

fun run_command :: "command \<Rightarrow> selection \<Rightarrow> editor \<Rightarrow> editor \<times> selection option" where
  "run_command (WrapSelection before_str after_opt) sel s =
     (let r = wrapSelection before_str after_opt sel s in (fst r, Some (snd r)))"
| "run_command (InsertAtLineStart prefix) sel s = (insertAtLineStart prefix sel s, None)"
| "run_command HandleUndo sel s = (handleUndo s, None)"
| "run_command HandleRedo sel s = (handleRedo s, None)"

definition handleKeyDown ::
  "keyEvent \<Rightarrow> selection \<Rightarrow> string option \<Rightarrow> string option \<Rightarrow> editor
     \<Rightarrow> editor \<times> selection option" where
  "handleKeyDown e sel p1 p2 s =
     (case shortcut e p1 p2 of
        None \<Rightarrow> (s, None)
      | Some c \<Rightarrow> run_command c sel s)"












section \<open>Basic facts\<close>

lemma slice_take_drop:
  "start \<le> en \<Longrightarrow> en \<le> length b \<Longrightarrow> slice b start en = take (en - start) (drop start b)"
  by (simp add: slice_def min_def)

lemma slice_zero: "slice b 0 n = take n b"
  by (simp add: slice_def min_def)

lemma slice_from_drop: "slice_from b n = drop n b"
  by (simp add: slice_from_def slice_def min_def)

lemma length_slice:
  "start \<le> en \<Longrightarrow> en \<le> length b \<Longrightarrow> length (slice b start en) = en - start"
  by (simp add: slice_take_drop)

lemma wrapSelection_edit:
  "fst (wrapSelection before_str after_opt sel s) =
     edit (text_state (fst (wrapSelection before_str after_opt sel s))) s"
  by (simp add: wrapSelection_def edit_def setText_def Let_def)

lemma insertAtLineStart_edit:
  "insertAtLineStart prefix sel s = edit (text_state (insertAtLineStart prefix sel s)) s"
  by (simp add: insertAtLineStart_def edit_def setText_def Let_def)

lemma text_edit: "text_state (edit b s) = b"
  by (simp add: edit_def setText_def)

lemma redoStack_edit: "redoStack (edit b s) = []"
  by (simp add: edit_def setText_def saveHistory_def Let_def)

lemma undoStack_edit_nonempty: "undoStack (edit b s) \<noteq> []"
  by (cases "undoStack s") (auto simp: edit_def setText_def saveHistory_def Let_def)

lemma last_undoStack_edit: "last (undoStack (edit b s)) = text_state s"
proof (cases "undoStack s")
  case Nil
  then show ?thesis by (simp add: edit_def setText_def saveHistory_def)
next
  case (Cons x xs)
  then show ?thesis by (simp add: edit_def setText_def saveHistory_def Let_def)
qed

lemma handleRedo_handleUndo:
  "undoStack s \<noteq> [] \<Longrightarrow> handleRedo (handleUndo s) = s"
  by (simp add: handleUndo_def handleRedo_def)

lemma handleUndo_handleRedo:
  "redoStack s \<noteq> [] \<Longrightarrow> handleUndo (handleRedo s) = s"
  by (simp add: handleUndo_def handleRedo_def)

lemma snapshots_handleUndo: "snapshots (handleUndo s) = snapshots s"
proof (cases "undoStack s = []")
  case True
  then show ?thesis by (simp add: handleUndo_def)
next
  case False
  then have "mset (butlast (undoStack s)) + {#last (undoStack s)#} = mset (undoStack s)"
    by (metis append_butlast_last_id mset.simps(1) mset.simps(2) mset_append add_mset_add_single union_mset_add_mset_right add.right_neutral)
  with False show ?thesis
    by (simp add: handleUndo_def snapshots_def ac_simps)
qed

lemma snapshots_handleRedo: "snapshots (handleRedo s) = snapshots s"
proof (cases "redoStack s = []")
  case True
  then show ?thesis by (simp add: handleRedo_def)
next
  case False
  then have "mset (butlast (redoStack s)) + {#last (redoStack s)#} = mset (redoStack s)"
    by (metis append_butlast_last_id mset.simps(1) mset.simps(2) mset_append add_mset_add_single union_mset_add_mset_right add.right_neutral)
  with False show ?thesis
    by (simp add: handleRedo_def snapshots_def ac_simps)
qed

lemma shortcut_undo:
  "ctrlKey e \<or> metaKey e \<Longrightarrow> \<not> shiftKey e \<Longrightarrow> toLowerCase (key e) = ''z''
     \<Longrightarrow> shortcut e p1 p2 = Some HandleUndo"
  by (simp add: shortcut_def plain_shortcut_def)

lemma shortcut_redo:
  "ctrlKey e \<or> metaKey e \<Longrightarrow> \<not> shiftKey e \<Longrightarrow> toLowerCase (key e) = ''y''
     \<Longrightarrow> shortcut e p1 p2 = Some HandleRedo"
  by (simp add: shortcut_def plain_shortcut_def)

lemma toLowerCase_z: "toLowerCase ''Z'' = ''z''" by code_simp
lemma toLowerCase_y: "toLowerCase ''y'' = ''y''" by code_simp

section \<open>The wrap transform\<close>

text \<open>
  Claim C1. For a selection \<open>(start, en)\<close> with \<open>start \<le> en \<le> length buffer\<close>,
  \<^const>\<open>wrapSelection\<close> returns the buffer
  \<open>buffer[0:start] + before + buffer[start:en] + after + buffer[en:]\<close>, where the
  omitted \<open>after\<close> is \<open>before\<close>, and the selection
  \<open>(start + len before, start + len before + (en - start))\<close>; the returned range
  of the new buffer is the originally selected substring.
\<close>

theorem wrapSelection_spec:
  assumes "start \<le> en" and "en \<le> length (text_state s)"
  shows "text_state (fst (wrapSelection bf aft (start, en) s)) =
           take start (text_state s) @ bf @ take (en - start) (drop start (text_state s))
             @ (case aft of None \<Rightarrow> bf | Some a \<Rightarrow> a) @ drop en (text_state s)
       \<and> snd (wrapSelection bf aft (start, en) s) =
           (start + length bf, start + length bf + (en - start))
       \<and> take (snd (snd (wrapSelection bf aft (start, en) s))
                 - fst (snd (wrapSelection bf aft (start, en) s)))
            (drop (fst (snd (wrapSelection bf aft (start, en) s)))
               (text_state (fst (wrapSelection bf aft (start, en) s))))
           = take (en - start) (drop start (text_state s))"
proof -
  let ?b = "text_state s"
  let ?r = "wrapSelection bf aft (start, en) s"
  have sel: "slice ?b start en = take (en - start) (drop start ?b)"
    using assms by (rule slice_take_drop)
  have len: "length (slice ?b start en) = en - start"
    using assms by (rule length_slice)
  have ntext: "text_state (fst ?r) =
      take start ?b @ bf @ take (en - start) (drop start ?b)
        @ (case aft of None \<Rightarrow> bf | Some a \<Rightarrow> a) @ drop en ?b"
    by (simp add: wrapSelection_def Let_def setText_def slice_zero slice_from_drop sel)
  have rng: "snd ?r = (start + length bf, start + length bf + (en - start))"
    by (simp add: wrapSelection_def Let_def len)
  have "start \<le> length ?b" using assms by simp
  then have "length (take start ?b @ bf) = start + length bf" by simp
  then have "drop (start + length bf) (text_state (fst ?r)) =
      take (en - start) (drop start ?b)
        @ (case aft of None \<Rightarrow> bf | Some a \<Rightarrow> a) @ drop en ?b"
    unfolding ntext by (metis append.assoc append_eq_conv_conj)
  moreover have "length (take (en - start) (drop start ?b)) = en - start"
    using assms by simp
  ultimately have "take (en - start) (drop (start + length bf) (text_state (fst ?r)))
      = take (en - start) (drop start ?b)"
    by simp
  with ntext rng show ?thesis by simp
qed

theorem wrapSelection_spec_witness:
  "(0::nat) \<le> 5 \<and> 5 \<le> length ''hello world''
   \<and> text_state (fst (wrapSelection ''**'' None (0, 5)
        \<lparr>text_state = ''hello world'', undoStack = [], redoStack = []\<rparr>)) = ''**hello** world''
   \<and> snd (wrapSelection ''**'' None (0, 5)
        \<lparr>text_state = ''hello world'', undoStack = [], redoStack = []\<rparr>) = (2, 7)"
  using wrapSelection_spec [of 0 5 "\<lparr>text_state = ''hello world'', undoStack = [], redoStack = []\<rparr>" "''**''" None]
  by simp

section \<open>Undo and redo\<close>

text \<open>
  Claim C3. From a buffer \<open>B0 = text_state s\<close>, a captured edit to \<open>b1\<close> followed
  by undo gives the buffer \<open>B0\<close>, and a redo right after gives \<open>b1\<close>; the redo
  restores the whole state after the edit. The same holds when the edit is a wrap
  or a line prefix.
\<close>

theorem undo_redo_round_trip:
  "text_state (handleUndo (edit b1 s)) = text_state s
   \<and> text_state (handleRedo (handleUndo (edit b1 s))) = b1
   \<and> handleRedo (handleUndo (edit b1 s)) = edit b1 s
   \<and> text_state (handleUndo (fst (wrapSelection bf aft sel s))) = text_state s
   \<and> handleRedo (handleUndo (fst (wrapSelection bf aft sel s))) = fst (wrapSelection bf aft sel s)
   \<and> text_state (handleUndo (insertAtLineStart prefix sel s)) = text_state s
   \<and> handleRedo (handleUndo (insertAtLineStart prefix sel s)) = insertAtLineStart prefix sel s"
proof -
  have u: "text_state (handleUndo (edit b s)) = text_state s" for b
    using undoStack_edit_nonempty [of b s] last_undoStack_edit [of b s]
    by (simp add: handleUndo_def)
  have r: "handleRedo (handleUndo (edit b s)) = edit b s" for b
    using undoStack_edit_nonempty [of b s] by (rule handleRedo_handleUndo)
  have w: "fst (wrapSelection bf aft sel s) = edit (text_state (fst (wrapSelection bf aft sel s))) s"
    by (rule wrapSelection_edit)
  have i: "insertAtLineStart prefix sel s = edit (text_state (insertAtLineStart prefix sel s)) s"
    by (rule insertAtLineStart_edit)
  have "text_state (handleUndo (fst (wrapSelection bf aft sel s))) = text_state s"
    by (subst w) (rule u)
  moreover have "handleRedo (handleUndo (fst (wrapSelection bf aft sel s))) = fst (wrapSelection bf aft sel s)"
    using r [of "text_state (fst (wrapSelection bf aft sel s))"] w by simp
  moreover have "text_state (handleUndo (insertAtLineStart prefix sel s)) = text_state s"
    by (subst i) (rule u)
  moreover have "handleRedo (handleUndo (insertAtLineStart prefix sel s)) = insertAtLineStart prefix sel s"
    using r [of "text_state (insertAtLineStart prefix sel s)"] i by simp
  ultimately show ?thesis
    using u [of b1] r [of b1] by (simp add: text_edit)
qed

text \<open>
  Claim C5. \<^const>\<open>saveHistory\<close>, and with it every wrap and every line prefix,
  leaves the redo stack empty; after edit, undo, second edit the redo stack is
  empty and redo changes nothing.
\<close>

theorem redo_cleared_by_edit:
  "redoStack (saveHistory s) = []
   \<and> redoStack (fst (wrapSelection bf aft sel s)) = []
   \<and> redoStack (insertAtLineStart prefix sel s) = []
   \<and> redoStack (edit b2 (handleUndo (edit b1 s))) = []
   \<and> handleRedo (edit b2 (handleUndo (edit b1 s))) = edit b2 (handleUndo (edit b1 s))"
proof -
  have "redoStack (fst (wrapSelection bf aft sel s)) = []"
    by (subst wrapSelection_edit) (rule redoStack_edit)
  moreover have "redoStack (insertAtLineStart prefix sel s) = []"
    by (subst insertAtLineStart_edit) (rule redoStack_edit)
  moreover have "handleRedo (edit b2 (handleUndo (edit b1 s))) = edit b2 (handleUndo (edit b1 s))"
    by (simp add: handleRedo_def redoStack_edit)
  ultimately show ?thesis
    by (simp add: redoStack_edit) (simp add: saveHistory_def Let_def)
qed

text \<open>
  Claim C7. Undo on an empty undo stack and redo on an empty redo stack return the
  state as it is (buffer and both stacks), also when they are reached through the
  shortcuts Ctrl+Z and Ctrl+Y of the key handler.
\<close>

theorem empty_stack_noop:
  "(undoStack s = [] \<longrightarrow> handleUndo s = s)
   \<and> (redoStack s = [] \<longrightarrow> handleRedo s = s)
   \<and> ((ctrlKey e \<or> metaKey e) \<and> \<not> shiftKey e \<and> toLowerCase (key e) = ''z''
        \<and> undoStack s = [] \<longrightarrow> handleKeyDown e sel p1 p2 s = (s, None))
   \<and> ((ctrlKey e \<or> metaKey e) \<and> \<not> shiftKey e \<and> toLowerCase (key e) = ''y''
        \<and> redoStack s = [] \<longrightarrow> handleKeyDown e sel p1 p2 s = (s, None))"
  by (auto simp: handleUndo_def handleRedo_def handleKeyDown_def shortcut_undo shortcut_redo)

theorem empty_stack_noop_witness:
  "undoStack initial = [] \<and> redoStack initial = []
   \<and> handleUndo initial = initial \<and> handleRedo initial = initial
   \<and> handleKeyDown \<lparr>ctrlKey = True, metaKey = False, shiftKey = False, key = ''Z''\<rparr>
        (0, 0) None None initial = (initial, None)
   \<and> handleKeyDown \<lparr>ctrlKey = False, metaKey = True, shiftKey = False, key = ''y''\<rparr>
        (0, 0) None None initial = (initial, None)"
  using empty_stack_noop [of initial "\<lparr>ctrlKey = True, metaKey = False, shiftKey = False, key = ''Z''\<rparr>" "(0, 0)" None None]
    empty_stack_noop [of initial "\<lparr>ctrlKey = False, metaKey = True, shiftKey = False, key = ''y''\<rparr>" "(0, 0)" None None]
  by (simp add: initial_def toLowerCase_z toLowerCase_y)

text \<open>
  Claim C10. Undo pops the top of the undo stack into the buffer and pushes the old
  buffer on the redo stack, redo does the same with the stacks exchanged, and both
  keep the multiset of all snapshots (the two stacks and the buffer).
\<close>

theorem undo_redo_move_one_snapshot:
  "(undoStack s = us @ [tu] \<longrightarrow>
      handleUndo s = \<lparr>text_state = tu, undoStack = us,
                       redoStack = redoStack s @ [text_state s]\<rparr>)
   \<and> (redoStack s = rs @ [tr] \<longrightarrow>
      handleRedo s = \<lparr>text_state = tr, undoStack = undoStack s @ [text_state s],
                       redoStack = rs\<rparr>)
   \<and> snapshots (handleUndo s) = snapshots s
   \<and> snapshots (handleRedo s) = snapshots s"
proof -
  have "undoStack s = us @ [tu] \<longrightarrow>
      handleUndo s = \<lparr>text_state = tu, undoStack = us,
                       redoStack = redoStack s @ [text_state s]\<rparr>"
    by (simp add: handleUndo_def)
  moreover have "redoStack s = rs @ [tr] \<longrightarrow>
      handleRedo s = \<lparr>text_state = tr, undoStack = undoStack s @ [text_state s],
                       redoStack = rs\<rparr>"
    by (simp add: handleRedo_def)
  ultimately show ?thesis
    using snapshots_handleUndo [of s] snapshots_handleRedo [of s] by blast
qed

theorem undo_redo_move_one_snapshot_witness:
  "handleUndo \<lparr>text_state = ''b'', undoStack = [''z'', ''a''], redoStack = [''c'']\<rparr>
     = \<lparr>text_state = ''a'', undoStack = [''z''], redoStack = [''c'', ''b'']\<rparr>
   \<and> handleRedo \<lparr>text_state = ''b'', undoStack = [''z'', ''a''], redoStack = [''c'']\<rparr>
     = \<lparr>text_state = ''c'', undoStack = [''z'', ''a'', ''b''], redoStack = []\<rparr>
   \<and> snapshots (handleUndo \<lparr>text_state = ''b'', undoStack = [''z'', ''a''], redoStack = [''c'']\<rparr>)
     = {#''z'', ''a'', ''c'', ''b''#}"
  using undo_redo_move_one_snapshot
    [of "\<lparr>text_state = ''b'', undoStack = [''z'', ''a''], redoStack = [''c'']\<rparr>" "[''z'']" "''a''" "[]" "''c''"]
  by (simp add: snapshots_def)

section \<open>The bound of the undo stack\<close>

lemma undoStack_saveHistory:
  "undoStack (saveHistory s) =
     (if 100 \<le> length (undoStack s) then tl (undoStack s) @ [text_state s]
      else undoStack s @ [text_state s])"
  by (cases "undoStack s") (auto simp: saveHistory_def Let_def)

lemma history_sum_apply_op:
  "length (undoStack s) + length (redoStack s) \<le> 100
     \<Longrightarrow> length (undoStack (apply_op opn s)) + length (redoStack (apply_op opn s)) \<le> 100"
proof (cases opn)
  case CaptureBeforeEdit
  assume "length (undoStack s) + length (redoStack s) \<le> 100"
  then have "length (undoStack (saveHistory s)) \<le> 100"
    by (auto simp: undoStack_saveHistory)
  moreover have "redoStack (saveHistory s) = []"
    by (simp add: saveHistory_def Let_def)
  ultimately show ?thesis using CaptureBeforeEdit by simp
next
  case (SetText b)
  assume "length (undoStack s) + length (redoStack s) \<le> 100"
  with SetText show ?thesis by (simp add: setText_def)
next
  case Undo
  assume "length (undoStack s) + length (redoStack s) \<le> 100"
  with Undo show ?thesis by (cases "undoStack s") (auto simp: handleUndo_def)
next
  case Redo
  assume "length (undoStack s) + length (redoStack s) \<le> 100"
  with Redo show ?thesis by (cases "redoStack s") (auto simp: handleRedo_def)
qed

lemma history_sum_run_ops:
  "length (undoStack s) + length (redoStack s) \<le> 100
     \<Longrightarrow> length (undoStack (run_ops ops s)) + length (redoStack (run_ops ops s)) \<le> 100"
  unfolding run_ops_def
proof (induction ops arbitrary: s)
  case Nil
  then show ?case by simp
next
  case (Cons opn ops)
  from Cons.prems have "length (undoStack (apply_op opn s)) + length (redoStack (apply_op opn s)) \<le> 100"
    by (rule history_sum_apply_op)
  then show ?case using Cons.IH by simp
qed

lemma text_edits: "text_state (edits bs s) = last (text_state s # bs)"
  unfolding edits_def
  by (induction bs arbitrary: s) (simp_all add: text_edit)

lemma redoStack_edits: "bs \<noteq> [] \<Longrightarrow> redoStack (edits bs s) = []"
  unfolding edits_def
  by (induction bs rule: rev_induct) (simp_all add: redoStack_edit)

lemma undoStack_edit_drop:
  "length (undoStack s) \<le> 100 \<Longrightarrow>
     undoStack (edit b s) = drop (length (undoStack s) + 1 - 100) (undoStack s @ [text_state s])"
  by (cases "undoStack s") (auto simp: edit_def setText_def undoStack_saveHistory)

lemma keep_last_step:
  assumes "length L \<le> 101"
  shows "drop (length (drop (length L - 100) L) + m - 100) (drop (length L - 100) L @ X)
           = drop (length L + m - 100) (L @ X)"
proof (cases "length L \<le> 100")
  case True
  then show ?thesis by simp
next
  case False
  with assms have len: "length L = 101" by simp
  then obtain a L' where L: "L = a # L'" and len': "length L' = 100"
    by (cases L) auto
  show ?thesis unfolding L using len' by simp
qed

lemma undoStack_edits:
  "length (undoStack s) \<le> 100 \<Longrightarrow>
     undoStack (edits bs s) =
       drop (length (undoStack s) + length bs - 100) (undoStack s @ butlast (text_state s # bs))"
proof (induction bs arbitrary: s)
  case Nil
  then show ?case by (simp add: edits_def)
next
  case (Cons b bs)
  define L where "L = undoStack s @ [text_state s]"
  define X where "X = butlast (b # bs)"
  have lenL: "length L = length (undoStack s) + 1" by (simp add: L_def)
  have u': "undoStack (edit b s) = drop (length L - 100) L"
    using Cons.prems by (simp add: undoStack_edit_drop L_def)
  have le: "length (undoStack (edit b s)) \<le> 100"
    unfolding u' using Cons.prems lenL by simp
  have "undoStack (edits (b # bs) s) = undoStack (edits bs (edit b s))"
    by (simp add: edits_def)
  also have "\<dots> = drop (length (undoStack (edit b s)) + length bs - 100)
                     (undoStack (edit b s) @ X)"
    using Cons.IH [OF le] by (simp add: text_edit X_def)
  also have "\<dots> = drop (length L + length bs - 100) (L @ X)"
    unfolding u' using Cons.prems lenL by (intro keep_last_step) simp
  also have "L @ X = undoStack s @ butlast (text_state s # b # bs)"
    by (simp add: L_def X_def)
  finally show ?case using lenL by simp
qed

lemma drop_snoc_long:
  "n \<le> length xs \<Longrightarrow> drop n (xs @ [x]) = drop n xs @ [x]"
  by simp

lemma text_in_snapshots: "text_state s \<in># snapshots s"
  by (simp add: snapshots_def)

lemma snapshots_funpow_handleUndo: "snapshots ((handleUndo ^^ k) s) = snapshots s"
  by (induction k) (simp_all add: snapshots_handleUndo)

lemma snapshots_undo_redo_ops:
  "set ops \<subseteq> {Undo, Redo} \<Longrightarrow> snapshots (run_ops ops s) = snapshots s"
  unfolding run_ops_def
proof (induction ops arbitrary: s)
  case Nil
  then show ?case by simp
next
  case (Cons opn ops)
  then have "opn = Undo \<or> opn = Redo" by simp
  then have "snapshots (apply_op opn s) = snapshots s"
    by (auto simp: snapshots_handleUndo snapshots_handleRedo)
  with Cons show ?case by simp
qed

lemma set_snapshots_edits:
  assumes "undoStack s = []" and "redoStack s = []" and "length bs = 150"
  shows "set_mset (snapshots (edits bs s)) = set (drop 50 (text_state s # bs))"
proof -
  from assms(3) have ne: "bs \<noteq> []" by auto
  have u: "undoStack (edits bs s) = drop 50 (text_state s # butlast bs)"
    using undoStack_edits [of s bs] assms ne by simp
  have r: "redoStack (edits bs s) = []" using ne by (rule redoStack_edits)
  have t: "text_state (edits bs s) = last bs" using ne by (simp add: text_edits)
  have "text_state s # bs = (text_state s # butlast bs) @ [last bs]" using ne by simp
  moreover have "50 \<le> length (text_state s # butlast bs)" using assms(3) by simp
  ultimately have "drop 50 (text_state s # bs) = drop 50 (text_state s # butlast bs) @ [last bs]"
    by (metis drop_snoc_long)
  then show ?thesis by (simp add: snapshots_def u r t)
qed


lemma distinct_replicate_upt: "distinct (map (\<lambda>n. replicate n c) [i..<j])"
  by (simp add: distinct_map inj_on_def)

text \<open>
  Claim C4. From empty stacks, no sequence of captures, buffer changes, undos and
  redos makes the undo stack longer than 100; \<^const>\<open>saveHistory\<close> on a full stack
  drops its oldest entry and appends the buffer; and 150 edits whose buffers are
  pairwise distinct leave exactly 100 entries, the buffers before the last 100
  edits, so that no number of undos (and no mix of undos and redos) brings back
  any of the first 50 buffers.
\<close>

theorem undo_stack_bound:
  assumes "undoStack s = []" and "redoStack s = []"
  shows "length (undoStack (run_ops ops s)) \<le> 100
   \<and> undoStack (saveHistory x) =
        (if 100 \<le> length (undoStack x) then tl (undoStack x) @ [text_state x]
         else undoStack x @ [text_state x])
   \<and> (length bs = 150 \<and> distinct (text_state s # bs) \<longrightarrow>
        length (undoStack (edits bs s)) = 100
        \<and> undoStack (edits bs s) = drop 50 (text_state s # butlast bs)
        \<and> (\<forall>k. text_state ((handleUndo ^^ k) (edits bs s))
                 \<notin> set (take 50 (text_state s # bs)))
        \<and> (\<forall>urs. set urs \<subseteq> {Undo, Redo} \<longrightarrow>
               text_state (run_ops urs (edits bs s)) \<notin> set (take 50 (text_state s # bs))))"
proof -
  have bound: "length (undoStack (run_ops ops s)) \<le> 100"
    using history_sum_run_ops [of s ops] assms by simp
  have big: "length (undoStack (edits bs s)) = 100
        \<and> undoStack (edits bs s) = drop 50 (text_state s # butlast bs)
        \<and> (\<forall>k. text_state ((handleUndo ^^ k) (edits bs s))
                 \<notin> set (take 50 (text_state s # bs)))
        \<and> (\<forall>urs. set urs \<subseteq> {Undo, Redo} \<longrightarrow>
               text_state (run_ops urs (edits bs s)) \<notin> set (take 50 (text_state s # bs)))"
    if len: "length bs = 150" and dist: "distinct (text_state s # bs)"
  proof -
    have u: "undoStack (edits bs s) = drop 50 (text_state s # butlast bs)"
      using undoStack_edits [of s bs] assms len by simp
    then have l: "length (undoStack (edits bs s)) = 100" using len by simp
    have snaps: "set_mset (snapshots (edits bs s)) = set (drop 50 (text_state s # bs))"
      using assms len by (rule set_snapshots_edits)
    have disj: "set (take 50 (text_state s # bs)) \<inter> set (drop 50 (text_state s # bs)) = {}"
      using dist by (rule set_take_disj_set_drop_if_distinct) simp
    have gone: "text_state s' \<notin> set (take 50 (text_state s # bs))"
      if "snapshots s' = snapshots (edits bs s)" for s'
    proof -
      have "text_state s' \<in># snapshots (edits bs s)"
        using text_in_snapshots [of s'] that by simp
      then have "text_state s' \<in> set (drop 50 (text_state s # bs))"
        using snaps by simp
      with disj show ?thesis by blast
    qed
    have "text_state ((handleUndo ^^ k) (edits bs s)) \<notin> set (take 50 (text_state s # bs))" for k
      by (rule gone) (rule snapshots_funpow_handleUndo)
    moreover have "text_state (run_ops urs (edits bs s)) \<notin> set (take 50 (text_state s # bs))"
      if "set urs \<subseteq> {Undo, Redo}" for urs
      by (rule gone) (rule snapshots_undo_redo_ops [OF that])
    ultimately show ?thesis using u l by blast
  qed
  show ?thesis using bound big by (simp add: undoStack_saveHistory)
qed

theorem undo_stack_bound_witness:
  "undoStack initial = [] \<and> redoStack initial = []
   \<and> length (map (\<lambda>n. replicate n CHR ''x'') [1..<151]) = 150
   \<and> distinct (text_state initial # map (\<lambda>n. replicate n CHR ''x'') [1..<151])
   \<and> length (undoStack (run_ops [CaptureBeforeEdit, SetText ''a'', Undo, Redo] initial)) \<le> 100
   \<and> length (undoStack (edits (map (\<lambda>n. replicate n CHR ''x'') [1..<151]) initial)) = 100
   \<and> undoStack (edits (map (\<lambda>n. replicate n CHR ''x'') [1..<151]) initial)
       = drop 50 (text_state initial # butlast (map (\<lambda>n. replicate n CHR ''x'') [1..<151]))
   \<and> (\<forall>k. text_state ((handleUndo ^^ k)
               (edits (map (\<lambda>n. replicate n CHR ''x'') [1..<151]) initial))
            \<notin> set (take 50 (text_state initial # map (\<lambda>n. replicate n CHR ''x'') [1..<151])))
   \<and> text_state (run_ops [Undo, Undo, Redo]
               (edits (map (\<lambda>n. replicate n CHR ''x'') [1..<151]) initial))
            \<notin> set (take 50 (text_state initial # map (\<lambda>n. replicate n CHR ''x'') [1..<151]))"
proof -
  define bs where "bs = map (\<lambda>n. replicate n CHR ''x'') [1..<151]"
  have e: "undoStack initial = []" "redoStack initial = []" by (simp_all add: initial_def)
  have len: "length bs = 150" by (simp add: bs_def)
  have "text_state initial # bs = map (\<lambda>n. replicate n CHR ''x'') [0..<151]"
    unfolding bs_def initial_def by (subst upt_conv_Cons [of 0]) simp_all
  then have dist: "distinct (text_state initial # bs)"
    by (simp only: distinct_replicate_upt)
  have sub: "set [Undo, Undo, Redo] \<subseteq> {Undo, Redo}" by simp
  from undo_stack_bound [OF e, of "[CaptureBeforeEdit, SetText ''a'', Undo, Redo]" initial bs]
    len dist sub
  show ?thesis unfolding bs_def [symmetric] using e by blast
qed

section \<open>The prompt-based shortcuts\<close>

lemma toLowerCase_I: "toLowerCase ''I'' = ''i''" by code_simp
lemma toLowerCase_L: "toLowerCase ''L'' = ''l''" by code_simp
lemma toLowerCase_G: "toLowerCase ''G'' = ''g''" by code_simp


lemma shortcut_image:
  "ctrlKey e \<or> metaKey e \<Longrightarrow> shiftKey e \<Longrightarrow> toLowerCase (key e) = ''i'' \<Longrightarrow> imgUrl \<noteq> []
     \<Longrightarrow> shortcut e (Some imgUrl) p2 = Some (WrapSelection ''![]('' (Some '')''))"
  by (simp add: shortcut_def Let_def shift_shortcut_def)

lemma shortcut_link:
  "ctrlKey e \<or> metaKey e \<Longrightarrow> \<not> shiftKey e \<Longrightarrow> toLowerCase (key e) = ''l'' \<Longrightarrow> url \<noteq> []
     \<Longrightarrow> shortcut e (Some url) p2 = Some (WrapSelection ''['' (Some ('']('' @ url @ '')'')))"
  by (simp add: shortcut_def Let_def plain_shortcut_def)

text \<open>
  Claim C8, evaluated. The image shortcut with the URL \<^verbatim>\<open>u.png\<close> on the buffer
  \<^verbatim>\<open>cat\<close>, all of it selected, gives \<^verbatim>\<open>![](cat)\<close>: the URL is in no part of the
  buffer, and another URL gives the same buffer. The link shortcut on the same
  input does carry its URL: \<^verbatim>\<open>[cat](u.png)\<close>.
\<close>

theorem image_shortcut_drops_url:
  "handleKeyDown \<lparr>ctrlKey = True, metaKey = False, shiftKey = True, key = ''I''\<rparr> (0, 3)
       (Some ''u.png'') None \<lparr>text_state = ''cat'', undoStack = [], redoStack = []\<rparr>
     = (\<lparr>text_state = ''![](cat)'', undoStack = [''cat''], redoStack = []\<rparr>, Some (4, 7))
   \<and> handleKeyDown \<lparr>ctrlKey = True, metaKey = False, shiftKey = True, key = ''I''\<rparr> (0, 3)
       (Some ''v.gif'') None \<lparr>text_state = ''cat'', undoStack = [], redoStack = []\<rparr>
     = (\<lparr>text_state = ''![](cat)'', undoStack = [''cat''], redoStack = []\<rparr>, Some (4, 7))
   \<and> handleKeyDown \<lparr>ctrlKey = True, metaKey = False, shiftKey = False, key = ''L''\<rparr> (0, 3)
       (Some ''u.png'') None \<lparr>text_state = ''cat'', undoStack = [], redoStack = []\<rparr>
     = (\<lparr>text_state = ''[cat](u.png)'', undoStack = [''cat''], redoStack = []\<rparr>, Some (1, 4))"
  by (simp add: handleKeyDown_def shortcut_image shortcut_link toLowerCase_I toLowerCase_L
      wrapSelection_def saveHistory_def setText_def slice_def slice_from_def Let_def)

lemma foldl_append_concat:
  "foldl (\<lambda>acc c. acc @ f c) acc0 xs = acc0 @ concat (map f xs)"
  by (induction xs arbitrary: acc0) simp_all

lemma buildTable_shape:
  "buildTable (int cols) (int rows) =
     ''| '' @ concat (map (\<lambda>c. ''Header '' @ show_nat (c + 1) @ '' | '') [0..<cols])
     @ ''\<newline>| '' @ concat (replicate cols ''---- | '') @ ''\<newline>''
     @ concat (replicate rows (''| '' @ concat (replicate cols ''Data | '') @ ''\<newline>''))"
proof -
  have inner: "foldl (\<lambda>table c. table @ ''Data | '') (acc @ ''| '') [0..<cols]
      = acc @ ''| '' @ concat (replicate cols ''Data | '')" for acc
    by (simp add: foldl_append_concat [where f = "\<lambda>c. ''Data | ''"] map_replicate_const)
  have rows: "foldl (\<lambda>table r.
        foldl (\<lambda>table c. table @ ''Data | '') (table @ ''| '') [0..<cols] @ ''\<newline>'')
      acc0 [0..<rows]
      = acc0 @ concat (replicate rows (''| '' @ concat (replicate cols ''Data | '') @ ''\<newline>''))"
    for acc0
    unfolding inner
    using foldl_append_concat [where f = "\<lambda>r. ''| '' @ concat (replicate cols ''Data | '') @ ''\<newline>''"
        and ?acc0.0 = acc0 and xs = "[0..<rows]"]
    by (simp add: map_replicate_const)
  have divider: "foldl (\<lambda>table c. table @ ''---- | '') acc0 [0..<cols]
      = acc0 @ concat (replicate cols ''---- | '')" for acc0
    by (simp add: foldl_append_concat [where f = "\<lambda>c. ''---- | ''"] map_replicate_const)
  have header: "foldl (\<lambda>table c. table @ ''Header '' @ show_nat (c + 1) @ '' | '') acc0 [0..<cols]
      = acc0 @ concat (map (\<lambda>c. ''Header '' @ show_nat (c + 1) @ '' | '') [0..<cols])" for acc0
    by (rule foldl_append_concat)
  show ?thesis
    unfolding buildTable_def Let_def nat_int rows divider header by simp
qed

lemma parseInt_2: "parseInt (Some ''2'') = Some 2" by code_simp
lemma parseInt_1: "parseInt (Some ''1'') = Some 1" by code_simp
lemma buildTable_2_1:
  "buildTable 2 1 = ''| Header 1 | Header 2 | \<newline>| ---- | ---- | \<newline>| Data | Data | \<newline>''"
  by code_simp

lemma shortcut_table:
  "ctrlKey e \<or> metaKey e \<Longrightarrow> shiftKey e \<Longrightarrow> toLowerCase (key e) = ''g''
     \<Longrightarrow> parseInt p1 = Some cols \<Longrightarrow> parseInt p2 = Some rows \<Longrightarrow> 0 < cols \<Longrightarrow> 0 < rows
     \<Longrightarrow> shortcut e p1 p2 = Some (WrapSelection (buildTable cols rows) (Some []))"
  by (simp add: shortcut_def Let_def shift_shortcut_def)

text \<open>
  Claim C9. The table for 2 columns and 1 row is a header row with the cells
  \<^verbatim>\<open>Header 1\<close> and \<^verbatim>\<open>Header 2\<close>, a divider row of two \<^verbatim>\<open>----\<close> cells and one row
  of two \<^verbatim>\<open>Data\<close> cells, each row ended by a newline. For any counts the table is
  the header row, the divider row and \<open>rows\<close> rows of \<open>cols\<close> cells \<^verbatim>\<open>Data\<close>, and
  the shortcut Ctrl+Shift+G with positive counts inserts it at the start of the
  selection by \<^const>\<open>wrapSelection\<close> with an empty \<open>after\<close>.
\<close>

theorem table_skeleton:
  "buildTable 2 1 = ''| Header 1 | Header 2 | \<newline>| ---- | ---- | \<newline>| Data | Data | \<newline>''
   \<and> buildTable (int cols) (int rows) =
       ''| '' @ concat (map (\<lambda>c. ''Header '' @ show_nat (c + 1) @ '' | '') [0..<cols])
       @ ''\<newline>| '' @ concat (replicate cols ''---- | '') @ ''\<newline>''
       @ concat (replicate rows (''| '' @ concat (replicate cols ''Data | '') @ ''\<newline>''))
   \<and> ((ctrlKey e \<or> metaKey e) \<and> shiftKey e \<and> toLowerCase (key e) = ''g''
        \<and> parseInt p1 = Some (int cols) \<and> parseInt p2 = Some (int rows)
        \<and> 0 < cols \<and> 0 < rows \<longrightarrow>
        handleKeyDown e (start, en) p1 p2 s =
          (fst (wrapSelection (buildTable (int cols) (int rows)) (Some []) (start, en) s),
           Some (snd (wrapSelection (buildTable (int cols) (int rows)) (Some []) (start, en) s)))
        \<and> text_state (fst (handleKeyDown e (start, en) p1 p2 s)) =
            take start (text_state s) @ buildTable (int cols) (int rows)
              @ slice (text_state s) start en @ drop en (text_state s))"
proof -
  have "handleKeyDown e (start, en) p1 p2 s =
          (fst (wrapSelection (buildTable (int cols) (int rows)) (Some []) (start, en) s),
           Some (snd (wrapSelection (buildTable (int cols) (int rows)) (Some []) (start, en) s)))
        \<and> text_state (fst (handleKeyDown e (start, en) p1 p2 s)) =
            take start (text_state s) @ buildTable (int cols) (int rows)
              @ slice (text_state s) start en @ drop en (text_state s)"
    if "ctrlKey e \<or> metaKey e" "shiftKey e" "toLowerCase (key e) = ''g''"
      "parseInt p1 = Some (int cols)" "parseInt p2 = Some (int rows)" "0 < cols" "0 < rows"
  proof -
    have "shortcut e p1 p2 =
        Some (WrapSelection (buildTable (int cols) (int rows)) (Some []))"
      using that by (intro shortcut_table) simp_all
    then show ?thesis
      by (simp add: handleKeyDown_def Let_def wrapSelection_def setText_def
          slice_zero slice_from_drop)
  qed
  then show ?thesis
    using buildTable_2_1 buildTable_shape [of cols rows] by blast
qed

theorem table_skeleton_witness:
  "handleKeyDown \<lparr>ctrlKey = True, metaKey = False, shiftKey = True, key = ''G''\<rparr> (1, 2)
       (Some ''2'') (Some ''1'') \<lparr>text_state = ''cat'', undoStack = [], redoStack = []\<rparr>
     = (\<lparr>text_state =
           ''c| Header 1 | Header 2 | \<newline>| ---- | ---- | \<newline>| Data | Data | \<newline>at'',
         undoStack = [''cat''], redoStack = []\<rparr>, Some (60, 61))"
proof -
  have "int 2 = 2" "int 1 = 1" by simp_all
  with table_skeleton [of 2 1 "\<lparr>ctrlKey = True, metaKey = False, shiftKey = True, key = ''G''\<rparr>"
      "Some ''2''" "Some ''1''" 1 2 "\<lparr>text_state = ''cat'', undoStack = [], redoStack = []\<rparr>"]
  have "handleKeyDown \<lparr>ctrlKey = True, metaKey = False, shiftKey = True, key = ''G''\<rparr> (1, 2)
       (Some ''2'') (Some ''1'') \<lparr>text_state = ''cat'', undoStack = [], redoStack = []\<rparr>
     = (fst (wrapSelection (buildTable 2 1) (Some []) (1, 2)
               \<lparr>text_state = ''cat'', undoStack = [], redoStack = []\<rparr>),
        Some (snd (wrapSelection (buildTable 2 1) (Some []) (1, 2)
               \<lparr>text_state = ''cat'', undoStack = [], redoStack = []\<rparr>)))"
    and "buildTable 2 1 = ''| Header 1 | Header 2 | \<newline>| ---- | ---- | \<newline>| Data | Data | \<newline>''"
    by (simp_all add: toLowerCase_G parseInt_2 parseInt_1)
  then show ?thesis
    by (simp add: wrapSelection_def saveHistory_def setText_def slice_def slice_from_def Let_def)
qed

section \<open>Dismissed and rejected prompts\<close>

















section \<open>The line-prefix transform against its specification\<close>

text \<open>
  With a cursor (an empty selection) \<^const>\<open>insertAtLineStart\<close> prefixes the line the
  specification names, and with any selection it prefixes no line that the
  specification leaves alone.
\<close>

lemma map_lines_beyond: "en < c \<Longrightarrow> map_lines prefix start en c ls = ls"
  by (induction ls arbitrary: c) (simp_all add: Let_def)

lemma spec_prefix_lines_beyond: "en < c \<Longrightarrow> spec_prefix_lines prefix start en c ls = ls"
  by (induction ls arbitrary: c) (simp_all add: Let_def)

lemma map_lines_cursor:
  "map_lines prefix p p c ls = spec_prefix_lines prefix p p c ls"
proof (induction ls arbitrary: c)
  case Nil
  then show ?case by simp
next
  case (Cons l ls)
  show ?case
  proof (cases "p \<le> c + length l \<and> c \<le> p")
    case True
    then have "map_lines prefix p p (c + (length (prefix @ l) + 1)) ls = ls"
      by (intro map_lines_beyond) simp
    moreover from True have "spec_prefix_lines prefix p p (c + length l + 1) ls = ls"
      by (intro spec_prefix_lines_beyond) simp
    ultimately show ?thesis using True by (simp add: Let_def)
  next
    case False
    then show ?thesis using Cons.IH [of "c + (length l + 1)"] by (auto simp: Let_def)
  qed
qed

lemma insertAtLineStart_cursor:
  "text_state (insertAtLineStart prefix (p, p) s) = prefixLines_spec prefix (p, p) (text_state s)"
  by (simp add: insertAtLineStart_def prefixLines_spec_def setText_def Let_def map_lines_cursor)

lemma length_map_lines: "length (map_lines prefix start en c ls) = length ls"
  by (induction ls arbitrary: c) (simp_all add: Let_def)

lemma map_lines_only_selected:
  assumes "d = 0 \<or> start < c" and "i < length ls"
  shows "map_lines prefix start en (c + d) ls ! i = ls ! i
       \<or> (map_lines prefix start en (c + d) ls ! i = prefix @ ls ! i
          \<and> spec_prefix_lines prefix start en c ls ! i = prefix @ ls ! i)"
  using assms
proof (induction ls arbitrary: c d i)
  case Nil
  then show ?case by simp
next
  case (Cons l ls)
  let ?touched = "start \<le> c + d + length l \<and> c + d \<le> en"
  let ?l' = "if ?touched then prefix @ l else l"
  show ?case
  proof (cases i)
    case 0
    have "?touched \<Longrightarrow> start \<le> c + length l \<and> c \<le> en"
      using Cons.prems(1) by auto
    then show ?thesis using 0 by (auto simp: Let_def)
  next
    case (Suc j)
    define d' where "d' = d + (length ?l' - length l)"
    have cnt: "c + d + (length ?l' + 1) = (c + length l + 1) + d'"
      by (simp add: d'_def)
    have "d' = 0 \<or> start < c + length l + 1"
      using Cons.prems(1) by (auto simp: d'_def split: if_splits)
    moreover have "j < length ls" using Cons.prems(2) Suc by simp
    ultimately have "map_lines prefix start en ((c + length l + 1) + d') ls ! j = ls ! j
       \<or> (map_lines prefix start en ((c + length l + 1) + d') ls ! j = prefix @ ls ! j
          \<and> spec_prefix_lines prefix start en (c + length l + 1) ls ! j = prefix @ ls ! j)"
      by (rule Cons.IH)
    moreover have "map_lines prefix start en (c + d) (l # ls)
        = ?l' # map_lines prefix start en (c + d + (length ?l' + 1)) ls"
      by (simp add: Let_def)
    then have "map_lines prefix start en (c + d) (l # ls) ! i
        = map_lines prefix start en ((c + length l + 1) + d') ls ! j"
      unfolding cnt using Suc by simp
    moreover have "spec_prefix_lines prefix start en c (l # ls) ! i
        = spec_prefix_lines prefix start en (c + length l + 1) ls ! j"
      using Suc by (simp add: Let_def)
    moreover have "(l # ls) ! i = ls ! j" using Suc by simp
    ultimately show ?thesis by simp
  qed
qed

text \<open>
  Claim C2, evaluated. On the buffer of three lines \<^verbatim>\<open>a\<close>, \<^verbatim>\<open>b\<close>, \<^verbatim>\<open>c\<close> with the
  selection \<open>(0, 3)\<close>, which covers the first line, the newline and the second
  line, \<^const>\<open>insertAtLineStart\<close> prefixes the first line only, where the
  specification prefixes the first and the second: \<^verbatim>\<open>charCount\<close> has been advanced
  by the length of the prefixed first line. With the cursor at \<open>(2, 2)\<close> the second
  line alone is prefixed, as the specification says.
\<close>

theorem insertAtLineStart_misses_selected_line:
  "text_state (insertAtLineStart ''- '' (0, 3)
       \<lparr>text_state = ''a\<newline>b\<newline>c'', undoStack = [], redoStack = []\<rparr>) = ''- a\<newline>b\<newline>c''
   \<and> prefixLines_spec ''- '' (0, 3) ''a\<newline>b\<newline>c'' = ''- a\<newline>- b\<newline>c''
   \<and> slice ''a\<newline>b\<newline>c'' 0 3 = ''a\<newline>b''
   \<and> text_state (insertAtLineStart ''- '' (2, 2)
       \<lparr>text_state = ''a\<newline>b\<newline>c'', undoStack = [], redoStack = []\<rparr>) = ''a\<newline>- b\<newline>c''"
  by (simp add: insertAtLineStart_def prefixLines_spec_def setText_def saveHistory_def
      slice_def Let_def)

end
